theory Spec2Isabelle
  imports Main "HOL-Library.Word" "HOL-Library.Multiset" "HOL-Library.Sublist"
    "HOL-Library.Char_ord" "HOL-Library.List_Lexorder"
begin

section \<open>Data model of the tracing agent (tracing/agent.h)\<close>

text \<open>
  A \<^verbatim>\<open>std::set<std::string>\<close> is given by its elements in iteration order, which is
  ascending order of the strings. Strings compare as \<^verbatim>\<open>std::string\<close> does: byte by byte, a
  proper prefix first.
  Objects that are only passed around (writers, trace events, the tracing controller)
  are represented by their addresses.
\<close>

type_synonym category_set = "string list"
type_synonym agent_ptr = nat
type_synonym handle_ptr = nat
type_synonym writer_ptr = nat
type_synonym controller_ptr = nat
type_synonym trace_event = nat

datatype UseDefaultCategoryMode = kUseDefaultCategories | kIgnoreDefaultCategories

definition kDefaultHandleId :: int where
  "kDefaultHandleId = - 1"

definition INT_MAX :: int where
  "INT_MAX = 2147483647"

text \<open>
  The private members of \<^verbatim>\<open>class Agent\<close>. Both maps are association lists with one entry
  per key; the list stored for an id in \<open>categories_'\<close> stands for that id's multiset of
  categories (\<open>mset\<close> of the list). The containers the header declares for \<open>categories_\<close>,
  a \<^verbatim>\<open>std::unordered_map\<close> of \<^verbatim>\<open>std::multiset\<close>, record neither the order in which ids were
  inserted nor the order in which an id's categories were, so the list of enabled
  categories below is computed from the categories held alone. Thread, loop, mutex and
  condition variable are not part of the model.
\<close>

record Agent =
  started_' :: bool
  next_writer_id_' :: int
  categories_' :: "(int \<times> string list) list"
  writers_' :: "(int \<times> writer_ptr) list"
  tracing_controller_' :: "controller_ptr option"

text \<open>
  The member initialisers of the header: \<^verbatim>\<open>started_ = false\<close>, \<^verbatim>\<open>next_writer_id_ = 1\<close>,
  empty maps. The controller is whatever the constructor installs.
\<close>

definition Agent_init :: "controller_ptr option \<Rightarrow> Agent" where
  "Agent_init tc =
     \<lparr>started_' = False, next_writer_id_' = 1, categories_' = [], writers_' = [],
      tracing_controller_' = tc\<rparr>"

definition Agent_GetTracingController :: "Agent \<Rightarrow> controller_ptr option" where
  "Agent_GetTracingController ag = tracing_controller_' ag"

subsection \<open>The category table\<close>

text \<open>
  Modelled from the spec: the category ref-count table of section 3, a "mapping from
  registration id to the multiset of category strings that id contributed"; agent.h only
  declares the member \<^verbatim>\<open>categories_\<close>. An id without an entry holds the empty multiset.
  \<open>update_categories\<close> changes the multiset of an id, adding the id at the end when it is new.
\<close>

fun lookup_categories :: "int \<Rightarrow> (int \<times> string list) list \<Rightarrow> string list" where
  "lookup_categories i [] = []"
| "lookup_categories i ((j, cs) # t) = (if i = j then cs else lookup_categories i t)"

fun update_categories ::
  "int \<Rightarrow> (string list \<Rightarrow> string list) \<Rightarrow> (int \<times> string list) list \<Rightarrow> (int \<times> string list) list"
where
  "update_categories i f [] = [(i, f [])]"
| "update_categories i f ((j, cs) # t) =
     (if i = j then (j, f cs) # t else (j, cs) # update_categories i f t)"

definition ref_multiset :: "Agent \<Rightarrow> int \<Rightarrow> string multiset" where
  "ref_multiset ag i = mset (lookup_categories i (categories_' ag))"

text \<open>Insertion into a \<^verbatim>\<open>std::set<std::string>\<close>: an element already there is not inserted
  again, a new one takes its place in ascending order.\<close>

definition insert_category :: "string \<Rightarrow> string list \<Rightarrow> string list" where
  "insert_category c acc = (if c \<in> set acc then acc else insort c acc)"

text \<open>
  Modelled from the spec: the union of all ids' multisets (section 3, "the union of all
  nonempty entries is the currently enabled category set"). The body of agent.cc that
  computes it is not among the sources. The union is built as a \<^verbatim>\<open>std::set<std::string>\<close>,
  the type agent.h uses for every set of categories, so it lists each category once, in
  ascending order. The "insertion order across ids" of section 4.1 is not what is
  modelled: the containers declared for \<open>categories_\<close> do not record it.
\<close>

definition flatten :: "(int \<times> string list) list \<Rightarrow> string list" where
  "flatten t = fold insert_category (concat (map snd t)) []"

text \<open>Modelled from the spec: the "comma-joined" list of section 4.1.\<close>

fun join_commas :: "string list \<Rightarrow> string" where
  "join_commas [] = []"
| "join_commas [x] = x"
| "join_commas (x # y # r) = x @ CHR '','' # join_commas (y # r)"

text \<open>The fields of a comma-separated string, and whether a category is one of them.\<close>

fun split_commas :: "string \<Rightarrow> string list" where
  "split_commas [] = [[]]"
| "split_commas (c # s) =
     (if c = CHR '','' then [] # split_commas s
      else (c # hd (split_commas s)) # tl (split_commas s))"

definition listed_in :: "string \<Rightarrow> string \<Rightarrow> bool" where
  "listed_in c s = (s \<noteq> [] \<and> c \<in> set (split_commas s))"

definition is_identifier :: "string \<Rightarrow> bool" where
  "is_identifier c = (c \<noteq> [] \<and> CHR '','' \<notin> set c)"

subsection \<open>Operations of the Agent\<close>

text \<open>
  Modelled from the spec: \<^verbatim>\<open>Agent::Enable\<close> and \<^verbatim>\<open>Agent::Disable\<close>, declared in agent.h and
  defined in agent.cc, which is not among the sources. Section 4.1: "Mutates the ref-count
  multiset for id: enable inserts each category string once per call; disable removes one
  occurrence of each."
\<close>

definition Agent_Enable :: "int \<Rightarrow> category_set \<Rightarrow> Agent \<Rightarrow> Agent" where
  "Agent_Enable i categories ag =
     ag\<lparr>categories_' := update_categories i (\<lambda>cs. cs @ categories) (categories_' ag)\<rparr>"

definition Agent_Disable :: "int \<Rightarrow> category_set \<Rightarrow> Agent \<Rightarrow> Agent" where
  "Agent_Disable i categories ag =
     ag\<lparr>categories_' := update_categories i (fold remove1 categories) (categories_' ag)\<rparr>"

text \<open>
  Modelled from the spec: \<^verbatim>\<open>Agent::GetEnabledCategories\<close> (agent.cc is not among the
  sources). Section 4.1: "Returns the union described above as a comma-joined, order-stable
  (insertion order across ids) list; empty if no categories are enabled anywhere." The
  list that is joined is \<open>flatten\<close>, in the order explained there.
\<close>

definition GetEnabledCategories :: "Agent \<Rightarrow> string" where
  "GetEnabledCategories ag = join_commas (flatten (categories_' ag))"

datatype agent_error = IdSpaceExhausted

text \<open>
  Modelled from the spec: \<^verbatim>\<open>Agent::AddClient\<close> (agent.cc is not among the sources).
  Section 4.1: "assigns a fresh id; if mode requests default categories, unions them into
  the registration's category multiset. Starts the background thread if it is not already
  running. ... Returns a handle bound to the new id." The id is drawn from the counter
  \<^verbatim>\<open>int next_writer_id_ = 1\<close> of the header; the maps "store the original arguments to
  AddClient(), by id" (header comment). The counter is a 32-bit \<^verbatim>\<open>int\<close>: when it cannot be
  incremented within that range the id space is exhausted (section 7), which is an error
  result here. The result is the id the returned handle is bound to.
\<close>

definition Agent_AddClient ::
  "category_set \<Rightarrow> writer_ptr \<Rightarrow> UseDefaultCategoryMode \<Rightarrow> Agent \<Rightarrow> agent_error + (int \<times> Agent)"
where
  "Agent_AddClient categories writer mode ag =
     (if INT_MAX \<le> next_writer_id_' ag then Inl IdSpaceExhausted
      else
        let i = next_writer_id_' ag;
            use_categories =
              (case mode of
                 kUseDefaultCategories \<Rightarrow>
                   fold insert_category
                     (lookup_categories kDefaultHandleId (categories_' ag))
                     (fold insert_category categories [])
               | kIgnoreDefaultCategories \<Rightarrow> categories)
        in Inr (i, ag\<lparr>started_' := True,
                      next_writer_id_' := i + 1,
                      categories_' := update_categories i (\<lambda>_. use_categories) (categories_' ag),
                      writers_' := writers_' ag @ [(i, writer)]\<rparr>))"

text \<open>
  Modelled from the spec: \<^verbatim>\<open>Agent::Disconnect\<close> (agent.cc is not among the sources).
  Section 4.1: "Removes the registration for id from the registry and from the ref-count
  table ... calling Disconnect for an id that is no longer present is a no-op."
\<close>

definition Agent_Disconnect :: "int \<Rightarrow> Agent \<Rightarrow> Agent" where
  "Agent_Disconnect client ag =
     ag\<lparr>categories_' := filter (\<lambda>(j, cs). j \<noteq> client) (categories_' ag),
        writers_' := filter (\<lambda>(j, w). j \<noteq> client) (writers_' ag)\<rparr>"

datatype writer_call = Writer_AppendTraceEvent writer_ptr trace_event

text \<open>
  Modelled from the spec: \<^verbatim>\<open>Agent::AppendTraceEvent\<close> (agent.cc is not among the sources).
  Section 4.1: "the Agent simply forwards to all registered writers unconditionally";
  section 8: "in registration-relative order". The result is the list of calls made on
  writers, in the order they are made.
\<close>

definition Agent_AppendTraceEvent :: "trace_event \<Rightarrow> Agent \<Rightarrow> writer_call list" where
  "Agent_AppendTraceEvent ev ag = map (\<lambda>(i, w). Writer_AppendTraceEvent w ev) (writers_' ag)"

subsection \<open>Sequences of calls on one Agent\<close>

datatype category_call = Enable int category_set | Disable int category_set

fun do_category_call :: "category_call \<Rightarrow> Agent \<Rightarrow> Agent" where
  "do_category_call (Enable i cs) ag = Agent_Enable i cs ag"
| "do_category_call (Disable i cs) ag = Agent_Disable i cs ag"

fun call_categories :: "category_call \<Rightarrow> category_set" where
  "call_categories (Enable i cs) = cs"
| "call_categories (Disable i cs) = cs"

datatype agent_op =
  AddClient category_set writer_ptr UseDefaultCategoryMode
| Disconnect int
| CategoryCall category_call

fun is_AddClient :: "agent_op \<Rightarrow> bool" where
  "is_AddClient (AddClient cs w m) = True"
| "is_AddClient (Disconnect i) = False"
| "is_AddClient (CategoryCall c) = False"

text \<open>
  One step of an Agent's lifetime. Next to the Agent the state carries the history of
  registrations: the (id, writer) pair of every successful \<open>AddClient\<close>, in call order.
\<close>

fun agent_step ::
  "agent_op \<Rightarrow> Agent \<times> (int \<times> writer_ptr) list \<Rightarrow> agent_error + (Agent \<times> (int \<times> writer_ptr) list)"
where
  "agent_step (AddClient cs w m) (ag, regs) =
     (case Agent_AddClient cs w m ag of
        Inl e \<Rightarrow> Inl e
      | Inr (i, ag') \<Rightarrow> Inr (ag', regs @ [(i, w)]))"
| "agent_step (Disconnect i) (ag, regs) = Inr (Agent_Disconnect i ag, regs)"
| "agent_step (CategoryCall c) (ag, regs) = Inr (do_category_call c ag, regs)"

fun run_agent ::
  "agent_op list \<Rightarrow> Agent \<times> (int \<times> writer_ptr) list \<Rightarrow> agent_error + (Agent \<times> (int \<times> writer_ptr) list)"
where
  "run_agent [] s = Inr s"
| "run_agent (x # xs) s =
     (case agent_step x s of Inl e \<Rightarrow> Inl e | Inr s' \<Rightarrow> run_agent xs s')"

section \<open>AgentWriterHandle (tracing/agent.h)\<close>

text \<open>
  \<^verbatim>\<open>Agent* agent_ = nullptr; int id_;\<close> A null pointer is \<open>None\<close>. Handles and Agents live
  in a store, since \<^verbatim>\<open>operator=\<close> takes two handle references that may alias. The store
  also logs every call a handle makes into an Agent.
\<close>

record AgentWriterHandle =
  agent_' :: "agent_ptr option"
  id_' :: int

datatype agent_call =
  Disconnect_call agent_ptr int
| Enable_call agent_ptr int category_set
| Disable_call agent_ptr int category_set

record world =
  handles :: "handle_ptr \<Rightarrow> AgentWriterHandle"
  agents :: "agent_ptr \<Rightarrow> Agent"
  calls :: "agent_call list"

definition set_agent :: "handle_ptr \<Rightarrow> agent_ptr option \<Rightarrow> world \<Rightarrow> world" where
  "set_agent p a w = w\<lparr>handles := (handles w)(p := (handles w p)\<lparr>agent_' := a\<rparr>)\<rparr>"

definition set_id :: "handle_ptr \<Rightarrow> int \<Rightarrow> world \<Rightarrow> world" where
  "set_id p i w = w\<lparr>handles := (handles w)(p := (handles w p)\<lparr>id_' := i\<rparr>)\<rparr>"

text \<open>The three calls \<^verbatim>\<open>agent_->Disconnect(id_)\<close>, \<^verbatim>\<open>agent_->Enable(id_, categories)\<close> and
  \<^verbatim>\<open>agent_->Disable(id_, categories)\<close>: the Agent changes and the call is logged.\<close>

definition call_Disconnect :: "agent_ptr \<Rightarrow> int \<Rightarrow> world \<Rightarrow> world" where
  "call_Disconnect a client w =
     w\<lparr>agents := (agents w)(a := Agent_Disconnect client (agents w a)),
       calls := calls w @ [Disconnect_call a client]\<rparr>"

definition call_Enable :: "agent_ptr \<Rightarrow> int \<Rightarrow> category_set \<Rightarrow> world \<Rightarrow> world" where
  "call_Enable a i categories w =
     w\<lparr>agents := (agents w)(a := Agent_Enable i categories (agents w a)),
       calls := calls w @ [Enable_call a i categories]\<rparr>"

definition call_Disable :: "agent_ptr \<Rightarrow> int \<Rightarrow> category_set \<Rightarrow> world \<Rightarrow> world" where
  "call_Disable a i categories w =
     w\<lparr>agents := (agents w)(a := Agent_Disable i categories (agents w a)),
       calls := calls w @ [Disable_call a i categories]\<rparr>"

text \<open>\<^verbatim>\<open>inline AgentWriterHandle() {}\<close>: \<open>agent_'\<close> gets its initialiser, \<open>id_'\<close> keeps whatever
  the storage held.\<close>

definition AgentWriterHandle_default :: "handle_ptr \<Rightarrow> world \<Rightarrow> world" where
  "AgentWriterHandle_default this w = set_agent this None w"

text \<open>\<^verbatim>\<open>AgentWriterHandle(Agent* agent, int id) : agent_(agent), id_(id) {}\<close>\<close>

definition AgentWriterHandle_bound :: "handle_ptr \<Rightarrow> agent_ptr option \<Rightarrow> int \<Rightarrow> world \<Rightarrow> world" where
  "AgentWriterHandle_bound this agent i w = set_id this i (set_agent this agent w)"

definition AgentWriterHandle_empty :: "handle_ptr \<Rightarrow> world \<Rightarrow> bool" where
  "AgentWriterHandle_empty this w = (agent_' (handles w this) = None)"

definition AgentWriterHandle_reset :: "handle_ptr \<Rightarrow> world \<Rightarrow> world" where
  "AgentWriterHandle_reset this w =
     (let w1 = (case agent_' (handles w this) of
                  Some a \<Rightarrow> call_Disconnect a (id_' (handles w this)) w
                | None \<Rightarrow> w)
      in set_agent this None w1)"

text \<open>\<^verbatim>\<open>inline ~AgentWriterHandle() { reset(); }\<close>\<close>

definition AgentWriterHandle_destroy :: "handle_ptr \<Rightarrow> world \<Rightarrow> world" where
  "AgentWriterHandle_destroy this w = AgentWriterHandle_reset this w"

text \<open>\<^verbatim>\<open>operator=(AgentWriterHandle&& other)\<close>, statement by statement.\<close>

definition AgentWriterHandle_assign :: "handle_ptr \<Rightarrow> handle_ptr \<Rightarrow> world \<Rightarrow> world" where
  "AgentWriterHandle_assign this other w =
     (let w1 = AgentWriterHandle_reset this w;
          w2 = set_agent this (agent_' (handles w1 other)) w1;
          w3 = set_id this (id_' (handles w2 other)) w2
      in set_agent other None w3)"

text \<open>The move constructor: the new object starts with \<^verbatim>\<open>agent_ = nullptr\<close>, then
  \<^verbatim>\<open>*this = std::move(other)\<close>.\<close>

definition AgentWriterHandle_move :: "handle_ptr \<Rightarrow> handle_ptr \<Rightarrow> world \<Rightarrow> world" where
  "AgentWriterHandle_move this other w =
     AgentWriterHandle_assign this other (set_agent this None w)"

definition AgentWriterHandle_Enable :: "handle_ptr \<Rightarrow> category_set \<Rightarrow> world \<Rightarrow> world" where
  "AgentWriterHandle_Enable this categories w =
     (case agent_' (handles w this) of
        Some a \<Rightarrow> call_Enable a (id_' (handles w this)) categories w
      | None \<Rightarrow> w)"

definition AgentWriterHandle_Disable :: "handle_ptr \<Rightarrow> category_set \<Rightarrow> world \<Rightarrow> world" where
  "AgentWriterHandle_Disable this categories w =
     (case agent_' (handles w this) of
        Some a \<Rightarrow> call_Disable a (id_' (handles w this)) categories w
      | None \<Rightarrow> w)"

definition AgentWriterHandle_GetTracingController ::
  "handle_ptr \<Rightarrow> world \<Rightarrow> controller_ptr option"
where
  "AgentWriterHandle_GetTracingController this w =
     (case agent_' (handles w this) of
        Some a \<Rightarrow> Agent_GetTracingController (agents w a)
      | None \<Rightarrow> None)"

section \<open>TracingController (tracing/agent.h)\<close>

text \<open>
  \<^verbatim>\<open>return uv_hrtime() / 1000;\<close> The clock reading is a \<^verbatim>\<open>uint64_t\<close> of nanoseconds, the
  division is unsigned, and the quotient is returned as \<^verbatim>\<open>int64_t\<close> (read it with \<open>sint\<close>).
  The rest of the program state is passed through.
\<close>

definition CurrentTimestampMicroseconds :: "64 word \<Rightarrow> 's \<Rightarrow> 64 word \<times> 's" where
  "CurrentTimestampMicroseconds uv_hrtime s = (uv_hrtime div 1000, s)"

section \<open>NodeCategorySet (node_trace_events.cc)\<close>

record NodeCategorySet =
  enabled_' :: bool
  set_categories_' :: category_set

text \<open>The constructor: \<^verbatim>\<open>bool enabled_ = false\<close>, \<^verbatim>\<open>categories_(std::move(categories))\<close>.\<close>

definition NodeCategorySet_new :: "category_set \<Rightarrow> NodeCategorySet" where
  "NodeCategorySet_new categories = \<lparr>enabled_' = False, set_categories_' = categories\<rparr>"

text \<open>
  \<^verbatim>\<open>NodeCategorySet::Enable\<close> and \<^verbatim>\<open>NodeCategorySet::Disable\<close> on an unwrapped object;
  \<open>writer\<close> is \<^verbatim>\<open>env->tracing_agent_writer()\<close>, the address of the environment's handle.
\<close>

definition NodeCategorySet_Enable ::
  "handle_ptr \<Rightarrow> NodeCategorySet \<Rightarrow> world \<Rightarrow> NodeCategorySet \<times> world"
where
  "NodeCategorySet_Enable writer category_set w =
     (let categories = set_categories_' category_set
      in if \<not> enabled_' category_set \<and> categories \<noteq> []
         then (category_set\<lparr>enabled_' := True\<rparr>, AgentWriterHandle_Enable writer categories w)
         else (category_set, w))"

definition NodeCategorySet_Disable ::
  "handle_ptr \<Rightarrow> NodeCategorySet \<Rightarrow> world \<Rightarrow> NodeCategorySet \<times> world"
where
  "NodeCategorySet_Disable writer category_set w =
     (let categories = set_categories_' category_set
      in if enabled_' category_set \<and> categories \<noteq> []
         then (category_set\<lparr>enabled_' := False\<rparr>, AgentWriterHandle_Disable writer categories w)
         else (category_set, w))"

datatype set_call = SetEnable | SetDisable

fun set_step :: "handle_ptr \<Rightarrow> set_call \<Rightarrow> NodeCategorySet \<times> world \<Rightarrow> NodeCategorySet \<times> world" where
  "set_step writer SetEnable (cs, w) = NodeCategorySet_Enable writer cs w"
| "set_step writer SetDisable (cs, w) = NodeCategorySet_Disable writer cs w"

text \<open>In a log of calls: the calls to \<^verbatim>\<open>Agent::Enable\<close> with the given agent, id and
  categories, minus the calls to \<^verbatim>\<open>Agent::Disable\<close> with the same.\<close>

definition net_enables :: "agent_ptr \<Rightarrow> int \<Rightarrow> category_set \<Rightarrow> agent_call list \<Rightarrow> int" where
  "net_enables a i cs log =
     int (count_list log (Enable_call a i cs)) - int (count_list log (Disable_call a i cs))"

section \<open>Concrete states\<close>

text \<open>A store without bound handles; the same with handle 0 bound to Agent 0 under id 1;
  and one with handles 3 and 4 bound to Agent 2 under ids 5 and 6.\<close>

definition world0 :: world where
  "world0 =
     \<lparr>handles = (\<lambda>_. \<lparr>agent_' = None, id_' = 0\<rparr>),
      agents = (\<lambda>_. Agent_init None),
      calls = []\<rparr>"

definition world1 :: world where
  "world1 = AgentWriterHandle_bound 0 (Some 0) 1 world0"

definition world2 :: world where
  "world2 = AgentWriterHandle_bound 4 (Some 2) 6 (AgentWriterHandle_bound 3 (Some 2) 5 world0)"

text \<open>A short lifetime of an Agent, and the state it ends in.\<close>

definition ops_demo :: "agent_op list" where
  "ops_demo =
     [AddClient [''net''] 10 kIgnoreDefaultCategories,
      AddClient [''gc''] 11 kIgnoreDefaultCategories,
      CategoryCall (Enable 1 [''perf'']),
      Disconnect 1,
      AddClient [''v8''] 12 kUseDefaultCategories]"

definition agent_demo :: Agent where
  "agent_demo =
     \<lparr>started_' = True, next_writer_id_' = 4,
      categories_' = [(2, [''gc'']), (3, [''v8''])],
      writers_' = [(2, 11), (3, 12)],
      tracing_controller_' = None\<rparr>"





section \<open>Properties of AgentWriterHandle\<close>

lemma set_agent_simps:
  "handles (set_agent p a w) = (handles w)(p := (handles w p)\<lparr>agent_' := a\<rparr>)"
  "agents (set_agent p a w) = agents w"
  "calls (set_agent p a w) = calls w"
  by (simp_all add: set_agent_def)

lemma set_id_simps:
  "handles (set_id p i w) = (handles w)(p := (handles w p)\<lparr>id_' := i\<rparr>)"
  "agents (set_id p i w) = agents w"
  "calls (set_id p i w) = calls w"
  by (simp_all add: set_id_def)

lemma call_Disconnect_simps:
  "handles (call_Disconnect a i w) = handles w"
  "agents (call_Disconnect a i w) = (agents w)(a := Agent_Disconnect i (agents w a))"
  "calls (call_Disconnect a i w) = calls w @ [Disconnect_call a i]"
  by (simp_all add: call_Disconnect_def)

lemma agent_update_same:
  "agent_' h = a \<Longrightarrow> h\<lparr>agent_' := a\<rparr> = h"
  by (cases h) simp

lemma set_agent_None_idem:
  "agent_' (handles w p) = None \<Longrightarrow> set_agent p None w = w"
  by (simp add: set_agent_def agent_update_same)

lemma reset_empty:
  "agent_' (handles w p) = None \<Longrightarrow> AgentWriterHandle_reset p w = w"
  by (simp add: AgentWriterHandle_reset_def set_agent_None_idem)

lemma reset_bound:
  "agent_' (handles w p) = Some a \<Longrightarrow>
   AgentWriterHandle_reset p w = set_agent p None (call_Disconnect a (id_' (handles w p)) w)"
  by (simp add: AgentWriterHandle_reset_def)

lemma reset_makes_empty:
  "agent_' (handles (AgentWriterHandle_reset p w) p) = None"
  by (simp add: AgentWriterHandle_reset_def set_agent_simps)

lemma world1_simps:
  "agent_' (handles world1 0) = Some 0" "id_' (handles world1 0) = 1" "calls world1 = []"
  by (simp_all add: world1_def world0_def AgentWriterHandle_bound_def set_agent_simps set_id_simps)

text \<open>
  C3. For a handle bound to a registration, \<open>reset\<close> (and the destructor, which is
  \<open>reset\<close>) makes exactly one call into the Agent, \<open>Disconnect\<close> with the handle's id,
  and leaves the handle empty. A further \<open>reset\<close> or destruction of the emptied handle
  changes nothing, so it makes no call. A handle constructed by the Agent for a
  registration and then destroyed produces exactly one \<open>Disconnect\<close>.
\<close>

theorem reset_disconnects_exactly_once:
  assumes "agent_' (handles w p) = Some a"
  shows "calls (AgentWriterHandle_reset p w) = calls w @ [Disconnect_call a (id_' (handles w p))]
       \<and> AgentWriterHandle_destroy p w = AgentWriterHandle_reset p w
       \<and> AgentWriterHandle_empty p (AgentWriterHandle_reset p w)
       \<and> AgentWriterHandle_reset p (AgentWriterHandle_reset p w) = AgentWriterHandle_reset p w
       \<and> AgentWriterHandle_destroy p (AgentWriterHandle_reset p w) = AgentWriterHandle_reset p w
       \<and> calls (AgentWriterHandle_destroy p (AgentWriterHandle_bound p (Some a) i w))
           = calls w @ [Disconnect_call a i]"
proof -
  have c1: "calls (AgentWriterHandle_reset p w) = calls w @ [Disconnect_call a (id_' (handles w p))]"
    using assms by (simp add: reset_bound set_agent_simps call_Disconnect_simps)
  have c3: "AgentWriterHandle_empty p (AgentWriterHandle_reset p w)"
    by (simp add: AgentWriterHandle_empty_def reset_makes_empty)
  have c4: "AgentWriterHandle_reset p (AgentWriterHandle_reset p w) = AgentWriterHandle_reset p w"
    by (rule reset_empty) (rule reset_makes_empty)
  have b: "agent_' (handles (AgentWriterHandle_bound p (Some a) i w) p) = Some a"
          "id_' (handles (AgentWriterHandle_bound p (Some a) i w) p) = i"
          "calls (AgentWriterHandle_bound p (Some a) i w) = calls w"
    by (simp_all add: AgentWriterHandle_bound_def set_agent_simps set_id_simps)
  have c6: "calls (AgentWriterHandle_destroy p (AgentWriterHandle_bound p (Some a) i w))
           = calls w @ [Disconnect_call a i]"
    unfolding AgentWriterHandle_destroy_def
    by (simp add: reset_bound [OF b(1)] b set_agent_simps call_Disconnect_simps)
  show ?thesis
    using c1 c3 c4 c6 by (simp add: AgentWriterHandle_destroy_def)
qed

theorem reset_disconnects_exactly_once_witness:
  "agent_' (handles world1 0) = Some 0
   \<and> calls (AgentWriterHandle_reset 0 world1) = [Disconnect_call 0 1]
   \<and> AgentWriterHandle_empty 0 (AgentWriterHandle_reset 0 world1)
   \<and> calls (AgentWriterHandle_destroy 0 (AgentWriterHandle_reset 0 world1)) = [Disconnect_call 0 1]"
  using reset_disconnects_exactly_once [of world1 0 0 1]
  by (simp add: world1_simps)

lemma call_Enable_simps:
  "handles (call_Enable a i cs w) = handles w"
  "agents (call_Enable a i cs w) = (agents w)(a := Agent_Enable i cs (agents w a))"
  "calls (call_Enable a i cs w) = calls w @ [Enable_call a i cs]"
  by (simp_all add: call_Enable_def)

lemma call_Disable_simps:
  "handles (call_Disable a i cs w) = handles w"
  "agents (call_Disable a i cs w) = (agents w)(a := Agent_Disable i cs (agents w a))"
  "calls (call_Disable a i cs w) = calls w @ [Disable_call a i cs]"
  by (simp_all add: call_Disable_def)

lemma reset_simps:
  "calls (AgentWriterHandle_reset p w) =
     calls w @ (case agent_' (handles w p) of None \<Rightarrow> [] | Some a \<Rightarrow> [Disconnect_call a (id_' (handles w p))])"
  "q \<noteq> p \<Longrightarrow> handles (AgentWriterHandle_reset p w) q = handles w q"
  "handles (AgentWriterHandle_reset p w) p = (handles w p)\<lparr>agent_' := None\<rparr>"
  by (simp_all add: AgentWriterHandle_reset_def set_agent_simps call_Disconnect_simps split: option.splits)

lemma assign_source_empty:
  "agent_' (handles (AgentWriterHandle_assign d s w) s) = None"
  by (simp add: AgentWriterHandle_assign_def Let_def set_agent_simps)

lemma assign_calls:
  "calls (AgentWriterHandle_assign d s w) = calls (AgentWriterHandle_reset d w)"
  by (simp add: AgentWriterHandle_assign_def Let_def set_agent_simps set_id_simps)

lemma assign_dest:
  "d \<noteq> s \<Longrightarrow> handles (AgentWriterHandle_assign d s w) d = handles w s"
  by (cases "handles w s") (simp add: AgentWriterHandle_assign_def Let_def set_agent_simps set_id_simps reset_simps)

text \<open>
  C5. On an empty handle (\<open>agent_ = nullptr\<close>, whatever \<open>id_\<close> holds), \<open>Enable\<close> and
  \<open>Disable\<close> return the store as it was: no call into an Agent is made and no Agent
  changes; \<open>GetTracingController\<close> returns null. A default-constructed handle is empty, and
  so is a handle after \<open>reset\<close> and a handle that has been moved from (by move assignment
  or by move construction).
\<close>

theorem empty_handle_no_op:
  "(AgentWriterHandle_empty p w \<longrightarrow>
      AgentWriterHandle_Enable p cs w = w
    \<and> AgentWriterHandle_Disable p cs w = w
    \<and> AgentWriterHandle_GetTracingController p w = None)
   \<and> AgentWriterHandle_empty p (AgentWriterHandle_default p w)
   \<and> AgentWriterHandle_empty p (AgentWriterHandle_reset p w)
   \<and> AgentWriterHandle_empty p (AgentWriterHandle_assign q p w)
   \<and> AgentWriterHandle_empty p (AgentWriterHandle_move q p w)"
  by (simp add: AgentWriterHandle_empty_def AgentWriterHandle_Enable_def
      AgentWriterHandle_Disable_def AgentWriterHandle_GetTracingController_def
      AgentWriterHandle_default_def AgentWriterHandle_move_def
      set_agent_simps reset_makes_empty assign_source_empty)

theorem empty_handle_no_op_witness:
  "AgentWriterHandle_empty 7 world1
   \<and> AgentWriterHandle_Enable 7 [''node''] world1 = world1
   \<and> AgentWriterHandle_Disable 7 [''node''] world1 = world1
   \<and> AgentWriterHandle_GetTracingController 7 world1 = None
   \<and> AgentWriterHandle_empty 0 (AgentWriterHandle_reset 0 world1)"
proof -
  have e: "AgentWriterHandle_empty 7 world1"
    by (simp add: AgentWriterHandle_empty_def world1_def world0_def
        AgentWriterHandle_bound_def set_agent_simps set_id_simps)
  show ?thesis
    using e empty_handle_no_op [of 7 world1 "[''node'']"] empty_handle_no_op [of 0 world1]
    by simp
qed

text \<open>
  C4, as stated, fails when a bound handle is move-assigned to itself: the move calls
  \<open>Disconnect\<close> with the source's own id, and the destination does not hold the pair
  afterwards. Handle 0 of \<open>world1\<close> is bound to Agent 0 with id 1.
\<close>

theorem move_assign_self_counterexample:
  "agent_' (handles world1 0) = Some 0 \<and> id_' (handles world1 0) = 1
   \<and> calls (AgentWriterHandle_assign 0 0 world1) = calls world1 @ [Disconnect_call 0 1]
   \<and> agent_' (handles (AgentWriterHandle_assign 0 0 world1) 0) = None"
  by (simp add: world1_simps assign_calls reset_simps assign_source_empty)

text \<open>
  C4, amended. When source and destination are distinct objects, move assignment and move
  construction transfer the (agent, id) pair to the destination and leave the source
  empty. The only call a move assignment makes is \<open>Disconnect\<close> for the registration the
  destination held before, if it was bound; move construction makes no call at all.
  Destroying the moved-from source afterwards changes nothing, and destroying the
  destination, the final owner, calls \<open>Disconnect\<close> with the id the source was bound to.
\<close>

theorem move_transfers_ownership:
  assumes "d \<noteq> s"
  shows "handles (AgentWriterHandle_assign d s w) d = handles w s
       \<and> AgentWriterHandle_empty s (AgentWriterHandle_assign d s w)
       \<and> calls (AgentWriterHandle_assign d s w) =
           calls w @ (case agent_' (handles w d) of
                        None \<Rightarrow> []
                      | Some a \<Rightarrow> [Disconnect_call a (id_' (handles w d))])
       \<and> handles (AgentWriterHandle_move d s w) d = handles w s
       \<and> AgentWriterHandle_empty s (AgentWriterHandle_move d s w)
       \<and> calls (AgentWriterHandle_move d s w) = calls w
       \<and> AgentWriterHandle_destroy s (AgentWriterHandle_assign d s w) = AgentWriterHandle_assign d s w
       \<and> calls (AgentWriterHandle_destroy d (AgentWriterHandle_assign d s w)) =
           calls (AgentWriterHandle_assign d s w) @
             (case agent_' (handles w s) of
                None \<Rightarrow> []
              | Some a \<Rightarrow> [Disconnect_call a (id_' (handles w s))])"
proof -
  let ?w' = "AgentWriterHandle_assign d s w"
  have t1: "handles ?w' d = handles w s"
    using assms by (rule assign_dest)
  have t2: "AgentWriterHandle_empty s ?w'"
    by (simp add: AgentWriterHandle_empty_def assign_source_empty)
  have t3: "calls ?w' = calls w @ (case agent_' (handles w d) of None \<Rightarrow> []
                      | Some a \<Rightarrow> [Disconnect_call a (id_' (handles w d))])"
    by (simp add: assign_calls reset_simps)
  have m0: "handles (set_agent d None w) s = handles w s"
    using assms by (simp add: set_agent_simps)
  have t4: "handles (AgentWriterHandle_move d s w) d = handles w s"
    unfolding AgentWriterHandle_move_def using assign_dest [OF assms, of "set_agent d None w"] m0
    by simp
  have t5: "AgentWriterHandle_empty s (AgentWriterHandle_move d s w)"
    by (simp add: AgentWriterHandle_empty_def AgentWriterHandle_move_def assign_source_empty)
  have t6: "calls (AgentWriterHandle_move d s w) = calls w"
    by (simp add: AgentWriterHandle_move_def assign_calls reset_simps set_agent_simps)
  have t7: "AgentWriterHandle_destroy s ?w' = ?w'"
    unfolding AgentWriterHandle_destroy_def
    by (rule reset_empty) (rule assign_source_empty)
  have t8: "calls (AgentWriterHandle_destroy d ?w') =
           calls ?w' @ (case agent_' (handles w s) of None \<Rightarrow> []
              | Some a \<Rightarrow> [Disconnect_call a (id_' (handles w s))])"
    unfolding AgentWriterHandle_destroy_def by (simp add: reset_simps t1 split: option.splits)
  show ?thesis
    using t1 t2 t3 t4 t5 t6 t7 t8 by simp
qed

lemma world2_simps:
  "handles world2 3 = \<lparr>agent_' = Some 2, id_' = 5\<rparr>"
  "handles world2 4 = \<lparr>agent_' = Some 2, id_' = 6\<rparr>"
  "calls world2 = []"
  by (simp_all add: world2_def world0_def AgentWriterHandle_bound_def set_agent_simps set_id_simps)

theorem move_transfers_ownership_witness:
  "(1::nat) \<noteq> 0
   \<and> handles (AgentWriterHandle_assign 1 0 world1) 1 = handles world1 0
   \<and> AgentWriterHandle_empty 0 (AgentWriterHandle_assign 1 0 world1)
   \<and> calls (AgentWriterHandle_assign 1 0 world1) = []
   \<and> calls (AgentWriterHandle_destroy 1 (AgentWriterHandle_assign 1 0 world1)) = [Disconnect_call 0 1]"
proof -
  have e: "agent_' (handles world1 1) = None"
    by (simp add: world1_def world0_def AgentWriterHandle_bound_def set_agent_simps set_id_simps)
  show ?thesis
    using move_transfers_ownership [of 1 0 world1] e by (simp add: world1_simps)
qed

text \<open>
  C9, as stated, fails when the bound destination is also the source: after the move it
  is empty instead of holding the registration (Agent 2, id 5) the source had.
\<close>

theorem move_assign_self_loses_registration_counterexample:
  "handles world2 3 = \<lparr>agent_' = Some 2, id_' = 5\<rparr>
   \<and> handles (AgentWriterHandle_assign 3 3 world2) 3 = \<lparr>agent_' = None, id_' = 5\<rparr>"
  by (simp add: world2_simps AgentWriterHandle_assign_def Let_def set_agent_simps set_id_simps reset_simps)

text \<open>
  C9, amended. Move-assigning from a distinct source into a handle that is bound to a
  registration first resets the destination, which calls \<open>Disconnect\<close> with the
  destination's old id on its Agent; the source's pair is adopted in the store that
  results. That \<open>Disconnect\<close> is the only call made. Afterwards the destination holds the
  source's (agent, id) pair and the source is empty.
\<close>

theorem move_assign_disconnects_destination_first:
  assumes "d \<noteq> s" and "agent_' (handles w d) = Some a"
  shows "AgentWriterHandle_assign d s w =
           set_agent s None (set_id d (id_' (handles w s)) (set_agent d (agent_' (handles w s))
             (AgentWriterHandle_reset d w)))
       \<and> AgentWriterHandle_reset d w = set_agent d None (call_Disconnect a (id_' (handles w d)) w)
       \<and> calls (AgentWriterHandle_assign d s w) = calls w @ [Disconnect_call a (id_' (handles w d))]
       \<and> agents (AgentWriterHandle_assign d s w) =
           (agents w)(a := Agent_Disconnect (id_' (handles w d)) (agents w a))
       \<and> handles (AgentWriterHandle_assign d s w) d = handles w s
       \<and> AgentWriterHandle_empty s (AgentWriterHandle_assign d s w)"
proof -
  have s1: "handles (AgentWriterHandle_reset d w) s = handles w s"
    using assms(1) by (simp add: reset_simps)
  have t1: "AgentWriterHandle_assign d s w =
           set_agent s None (set_id d (id_' (handles w s)) (set_agent d (agent_' (handles w s))
             (AgentWriterHandle_reset d w)))"
    using assms(1) by (simp add: AgentWriterHandle_assign_def Let_def s1 set_agent_simps)
  have t2: "AgentWriterHandle_reset d w = set_agent d None (call_Disconnect a (id_' (handles w d)) w)"
    using assms(2) by (rule reset_bound)
  have t3: "calls (AgentWriterHandle_assign d s w) = calls w @ [Disconnect_call a (id_' (handles w d))]"
    using assms(2) by (simp add: assign_calls reset_simps)
  have t4: "agents (AgentWriterHandle_assign d s w) =
           (agents w)(a := Agent_Disconnect (id_' (handles w d)) (agents w a))"
    by (simp add: t1 t2 set_agent_simps set_id_simps call_Disconnect_simps)
  have t5: "handles (AgentWriterHandle_assign d s w) d = handles w s"
    using assms(1) by (rule assign_dest)
  have t6: "AgentWriterHandle_empty s (AgentWriterHandle_assign d s w)"
    by (simp add: AgentWriterHandle_empty_def assign_source_empty)
  show ?thesis
    using t1 t2 t3 t4 t5 t6 by blast
qed

theorem move_assign_disconnects_destination_first_witness:
  "(3::nat) \<noteq> 4 \<and> agent_' (handles world2 3) = Some 2
   \<and> calls (AgentWriterHandle_assign 3 4 world2) = [Disconnect_call 2 5]
   \<and> handles (AgentWriterHandle_assign 3 4 world2) 3 = \<lparr>agent_' = Some 2, id_' = 6\<rparr>
   \<and> AgentWriterHandle_empty 4 (AgentWriterHandle_assign 3 4 world2)"
proof -
  have h: "(3::nat) \<noteq> 4" by simp
  have b: "agent_' (handles world2 3) = Some 2" by (simp add: world2_simps)
  note t = move_assign_disconnects_destination_first [OF h b]
  show ?thesis
    using h b t [THEN conjunct2, THEN conjunct2] by (simp add: world2_simps)
qed

lemma Enable_bound_calls:
  "agent_' (handles w p) = Some a \<Longrightarrow>
   calls (AgentWriterHandle_Enable p cs w) = calls w @ [Enable_call a (id_' (handles w p)) cs]
   \<and> handles (AgentWriterHandle_Enable p cs w) = handles w"
  by (simp add: AgentWriterHandle_Enable_def call_Enable_simps)

lemma Disable_bound_calls:
  "agent_' (handles w p) = Some a \<Longrightarrow>
   calls (AgentWriterHandle_Disable p cs w) = calls w @ [Disable_call a (id_' (handles w p)) cs]
   \<and> handles (AgentWriterHandle_Disable p cs w) = handles w"
  by (simp add: AgentWriterHandle_Disable_def call_Disable_simps)

lemma net_enables_append:
  "net_enables a i cs (log @ [Enable_call a i cs]) = net_enables a i cs log + 1"
  "net_enables a i cs (log @ [Disable_call a i cs]) = net_enables a i cs log - 1"
  by (simp_all add: net_enables_def)

lemma set_step_net:
  assumes "agent_' (handles w p) = Some a" and "set_step p x (cs, w) = (cs', w')"
  shows "handles w' = handles w \<and> set_categories_' cs' = set_categories_' cs
       \<and> net_enables a (id_' (handles w p)) (set_categories_' cs) (calls w') =
           net_enables a (id_' (handles w p)) (set_categories_' cs) (calls w)
             + of_bool (enabled_' cs') - of_bool (enabled_' cs)"
  using assms
  by (cases x)
     (auto simp: NodeCategorySet_Enable_def NodeCategorySet_Disable_def Let_def
        Enable_bound_calls Disable_bound_calls net_enables_append split: if_splits)

lemma fold_set_step_net:
  assumes "agent_' (handles w p) = Some a" and "fold (set_step p) xs (cs, w) = (cs', w')"
  shows "handles w' = handles w \<and> set_categories_' cs' = set_categories_' cs
       \<and> net_enables a (id_' (handles w p)) (set_categories_' cs) (calls w') =
           net_enables a (id_' (handles w p)) (set_categories_' cs) (calls w)
             + of_bool (enabled_' cs') - of_bool (enabled_' cs)"
  using assms
proof (induction xs arbitrary: cs w)
  case Nil
  then show ?case by simp
next
  case (Cons x xs)
  obtain cs1 w1 where st: "set_step p x (cs, w) = (cs1, w1)"
    by (cases "set_step p x (cs, w)")
  note s = set_step_net [OF Cons.prems(1) st]
  have b1: "agent_' (handles w1 p) = Some a"
    using s Cons.prems(1) by simp
  have f: "fold (set_step p) xs (cs1, w1) = (cs', w')"
    using Cons.prems(2) st by simp
  note r = Cons.IH [OF b1 f]
  show ?case using s r by simp
qed

section \<open>Properties of NodeCategorySet\<close>

text \<open>
  C10, amended. \<open>Enable\<close> forwards the set's categories to the environment's writer handle
  exactly when the set is not enabled and its categories are non-empty, and \<open>Disable\<close>
  exactly when it is enabled and non-empty; otherwise nothing changes. The second of two
  consecutive \<open>Enable\<close> calls (or of two consecutive \<open>Disable\<close> calls) never forwards, so
  two consecutive calls produce at most one call into the Agent: exactly one when the
  handle is bound and the first call passes its guard, none otherwise. Over any sequence
  of \<open>Enable\<close> and \<open>Disable\<close> calls on the set through a bound handle, the calls to
  \<open>Agent::Enable\<close> with the set's categories outnumber those to \<open>Agent::Disable\<close> by one
  while the set is enabled and by none while it is not.
\<close>

theorem category_set_forwards_guarded:
  "NodeCategorySet_Enable p cs w =
     (if \<not> enabled_' cs \<and> set_categories_' cs \<noteq> []
      then (cs\<lparr>enabled_' := True\<rparr>, AgentWriterHandle_Enable p (set_categories_' cs) w)
      else (cs, w))
   \<and> NodeCategorySet_Disable p cs w =
     (if enabled_' cs \<and> set_categories_' cs \<noteq> []
      then (cs\<lparr>enabled_' := False\<rparr>, AgentWriterHandle_Disable p (set_categories_' cs) w)
      else (cs, w))
   \<and> NodeCategorySet_Enable p (fst (NodeCategorySet_Enable p cs w))
        (snd (NodeCategorySet_Enable p cs w)) = NodeCategorySet_Enable p cs w
   \<and> NodeCategorySet_Disable p (fst (NodeCategorySet_Disable p cs w))
        (snd (NodeCategorySet_Disable p cs w)) = NodeCategorySet_Disable p cs w
   \<and> (agent_' (handles w p) = Some a \<longrightarrow>
        calls (snd (NodeCategorySet_Enable p cs w)) =
          calls w @ (if \<not> enabled_' cs \<and> set_categories_' cs \<noteq> []
                     then [Enable_call a (id_' (handles w p)) (set_categories_' cs)] else [])
      \<and> calls (snd (NodeCategorySet_Disable p cs w)) =
          calls w @ (if enabled_' cs \<and> set_categories_' cs \<noteq> []
                     then [Disable_call a (id_' (handles w p)) (set_categories_' cs)] else [])
      \<and> net_enables a (id_' (handles w p)) (set_categories_' cs)
            (calls (snd (fold (set_step p) xs (cs, w))))
          = net_enables a (id_' (handles w p)) (set_categories_' cs) (calls w)
            + of_bool (enabled_' (fst (fold (set_step p) xs (cs, w)))) - of_bool (enabled_' cs))"
proof -
  have t1: "NodeCategorySet_Enable p cs w =
     (if \<not> enabled_' cs \<and> set_categories_' cs \<noteq> []
      then (cs\<lparr>enabled_' := True\<rparr>, AgentWriterHandle_Enable p (set_categories_' cs) w)
      else (cs, w))"
    by (simp add: NodeCategorySet_Enable_def Let_def)
  have t2: "NodeCategorySet_Disable p cs w =
     (if enabled_' cs \<and> set_categories_' cs \<noteq> []
      then (cs\<lparr>enabled_' := False\<rparr>, AgentWriterHandle_Disable p (set_categories_' cs) w)
      else (cs, w))"
    by (simp add: NodeCategorySet_Disable_def Let_def)
  have t3: "NodeCategorySet_Enable p (fst (NodeCategorySet_Enable p cs w))
        (snd (NodeCategorySet_Enable p cs w)) = NodeCategorySet_Enable p cs w"
    by (simp add: NodeCategorySet_Enable_def Let_def)
  have t4: "NodeCategorySet_Disable p (fst (NodeCategorySet_Disable p cs w))
        (snd (NodeCategorySet_Disable p cs w)) = NodeCategorySet_Disable p cs w"
    by (simp add: NodeCategorySet_Disable_def Let_def)
  have t5: "calls (snd (NodeCategorySet_Enable p cs w)) =
          calls w @ (if \<not> enabled_' cs \<and> set_categories_' cs \<noteq> []
                     then [Enable_call a (id_' (handles w p)) (set_categories_' cs)] else [])"
    if "agent_' (handles w p) = Some a"
    using that by (simp add: t1 Enable_bound_calls)
  have t6: "calls (snd (NodeCategorySet_Disable p cs w)) =
          calls w @ (if enabled_' cs \<and> set_categories_' cs \<noteq> []
                     then [Disable_call a (id_' (handles w p)) (set_categories_' cs)] else [])"
    if "agent_' (handles w p) = Some a"
    using that by (simp add: t2 Disable_bound_calls)
  have t7: "net_enables a (id_' (handles w p)) (set_categories_' cs)
            (calls (snd (fold (set_step p) xs (cs, w))))
          = net_enables a (id_' (handles w p)) (set_categories_' cs) (calls w)
            + of_bool (enabled_' (fst (fold (set_step p) xs (cs, w)))) - of_bool (enabled_' cs)"
    if b: "agent_' (handles w p) = Some a"
  proof -
    obtain cs' w' where f: "fold (set_step p) xs (cs, w) = (cs', w')"
      by (cases "fold (set_step p) xs (cs, w)")
    show ?thesis
      using fold_set_step_net [OF b f] by (simp add: f)
  qed
  show ?thesis
    using t1 t2 t3 t4 t5 t6 t7 by blast
qed

theorem category_set_forwards_guarded_witness:
  "agent_' (handles world1 0) = Some 0
   \<and> calls (snd (NodeCategorySet_Enable 0 (NodeCategorySet_new [''a'', ''b'']) world1))
       = [Enable_call 0 1 [''a'', ''b'']]
   \<and> NodeCategorySet_Enable 0 (fst (NodeCategorySet_Enable 0 (NodeCategorySet_new [''a'', ''b'']) world1))
        (snd (NodeCategorySet_Enable 0 (NodeCategorySet_new [''a'', ''b'']) world1))
       = NodeCategorySet_Enable 0 (NodeCategorySet_new [''a'', ''b'']) world1"
proof -
  have b: "agent_' (handles world1 0) = Some 0" by (simp add: world1_simps)
  note t = category_set_forwards_guarded [of 0 "NodeCategorySet_new [''a'', ''b'']" world1 0 "[]"]
  have t3: "NodeCategorySet_Enable 0 (fst (NodeCategorySet_Enable 0 (NodeCategorySet_new [''a'', ''b'']) world1))
        (snd (NodeCategorySet_Enable 0 (NodeCategorySet_new [''a'', ''b'']) world1))
       = NodeCategorySet_Enable 0 (NodeCategorySet_new [''a'', ''b'']) world1"
    using t by blast
  have t5: "calls (snd (NodeCategorySet_Enable 0 (NodeCategorySet_new [''a'', ''b'']) world1))
       = [Enable_call 0 1 [''a'', ''b'']]"
    using t [THEN conjunct2, THEN conjunct2, THEN conjunct2, THEN conjunct2, THEN mp, OF b,
        THEN conjunct1]
    by (simp add: world1_simps NodeCategorySet_new_def)
  show ?thesis using b t3 t5 by simp
qed

text \<open>
  C10, as stated, fails: two consecutive \<open>Disable\<close> calls on a new set with categories
  \<open>{"a"}\<close>, through the bound handle 0 of \<open>world1\<close>, make no call into the Agent, not one.
\<close>

theorem two_disables_forward_nothing_counterexample:
  "agent_' (handles world1 0) = Some 0
   \<and> calls world1 = []
   \<and> calls (snd (NodeCategorySet_Disable 0
        (fst (NodeCategorySet_Disable 0 (NodeCategorySet_new [''a'']) world1))
        (snd (NodeCategorySet_Disable 0 (NodeCategorySet_new [''a'']) world1)))) = []"
  by (simp add: world1_simps NodeCategorySet_Disable_def NodeCategorySet_new_def)

section \<open>Properties of TracingController\<close>

lemma quotient_fits_int64:
  "uint ((t :: 64 word) div 1000) < 2 ^ 63"
proof -
  have "uint t < 2 ^ 64"
    using uint_lt2p [of t] by simp
  then have "uint t div 1000 < 2 ^ 63"
    by simp
  then show ?thesis
    by (simp add: uint_div)
qed

text \<open>
  C8. \<open>CurrentTimestampMicroseconds\<close> returns the clock reading (nanoseconds, unsigned
  64 bit) divided by 1000 with integer division; the quotient always fits the signed
  64-bit result. The result depends on the clock reading only, and the rest of the state
  is returned as it was.
\<close>

theorem timestamp_is_hrtime_div_1000:
  "sint (fst (CurrentTimestampMicroseconds t s)) = uint t div 1000
   \<and> snd (CurrentTimestampMicroseconds t s) = s
   \<and> fst (CurrentTimestampMicroseconds t s) = fst (CurrentTimestampMicroseconds t s')"
proof -
  have nonneg: "- (2 ^ 63) \<le> uint (t div 1000)"
    by (rule order_trans [of _ 0]) simp_all
  have "sint (t div 1000) = uint (t div 1000)"
    unfolding sint_uint
    by (rule signed_take_bit_int_eq_self) (use quotient_fits_int64 [of t] nonneg in simp_all)
  then show ?thesis
    by (simp add: CurrentTimestampMicroseconds_def uint_div)
qed

theorem timestamp_is_hrtime_div_1000_witness:
  "sint (fst (CurrentTimestampMicroseconds 1234567 ())) = 1234
   \<and> snd (CurrentTimestampMicroseconds 1234567 ()) = ()"
  using timestamp_is_hrtime_div_1000 [of 1234567 "()" "()"] by simp

section \<open>Properties of the Agent\<close>

subsection \<open>The category table\<close>

lemma map_fst_update_categories:
  "map fst (update_categories i f t) =
     (if i \<in> fst ` set t then map fst t else map fst t @ [i])"
  by (induction t; force)

lemma fst_set_update_categories:
  "fst ` set (update_categories i f t) = insert i (fst ` set t)"
proof -
  have "set (map fst (update_categories i f t)) = insert i (fst ` set t)"
    unfolding map_fst_update_categories by auto
  then show ?thesis by simp
qed

lemma distinct_update_categories:
  "distinct (map fst t) \<Longrightarrow> distinct (map fst (update_categories i f t))"
  unfolding map_fst_update_categories by simp

lemma lookup_update_categories:
  "lookup_categories j (update_categories i f t) =
     (if i = j then f (lookup_categories i t) else lookup_categories j t)"
  by (induction t) auto

lemma lookup_categories_distinct:
  "distinct (map fst t) \<Longrightarrow> (j, cs) \<in> set t \<Longrightarrow> lookup_categories j t = cs"
  by (induction t) (auto simp: rev_image_eqI)

lemma lookup_categories_cases:
  "lookup_categories i t = [] \<or> (i, lookup_categories i t) \<in> set t"
  by (induction t) (auto split: if_splits)

lemma in_some_lookup_iff:
  assumes "distinct (map fst t)"
  shows "(\<exists>i. c \<in> set (lookup_categories i t)) = (c \<in> set (concat (map snd t)))"
proof
  assume "\<exists>i. c \<in> set (lookup_categories i t)"
  then obtain i where i: "c \<in> set (lookup_categories i t)" ..
  then have "(i, lookup_categories i t) \<in> set t"
    using lookup_categories_cases [of i t] by auto
  with i show "c \<in> set (concat (map snd t))"
    by force
next
  assume "c \<in> set (concat (map snd t))"
  then obtain j cs where m: "(j, cs) \<in> set t" "c \<in> set cs"
    by auto
  then have "lookup_categories j t = cs"
    using assms by (simp add: lookup_categories_distinct)
  with m show "\<exists>i. c \<in> set (lookup_categories i t)"
    by blast
qed

lemma mset_fold_remove1:
  "mset (fold remove1 cs xs) = mset xs - mset cs"
  by (induction cs arbitrary: xs) simp_all

lemma ref_multiset_Enable:
  "ref_multiset (Agent_Enable i cs ag) j =
     (if i = j then ref_multiset ag j + mset cs else ref_multiset ag j)"
  by (simp add: ref_multiset_def Agent_Enable_def lookup_update_categories)

lemma ref_multiset_Disable:
  "ref_multiset (Agent_Disable i cs ag) j =
     (if i = j then ref_multiset ag j - mset cs else ref_multiset ag j)"
  by (simp add: ref_multiset_def Agent_Disable_def lookup_update_categories mset_fold_remove1)

subsection \<open>The union and its listing\<close>

lemma set_fold_insert_category:
  "set (fold insert_category xs acc) = set acc \<union> set xs"
  by (induction xs arbitrary: acc) (auto simp: insert_category_def set_insort_key)



lemma set_flatten: "set (flatten t) = set (concat (map snd t))"
  by (simp add: flatten_def set_fold_insert_category)




lemma split_commas_not_Nil: "split_commas s \<noteq> []"
  by (induction s) auto

lemma split_commas_no_comma:
  "CHR '','' \<notin> set x \<Longrightarrow> split_commas (x @ s) = (x @ hd (split_commas s)) # tl (split_commas s)"
  by (induction x) (auto simp: split_commas_not_Nil)

lemma split_join_commas:
  "xs \<noteq> [] \<Longrightarrow> \<forall>x \<in> set xs. CHR '','' \<notin> set x \<Longrightarrow> split_commas (join_commas xs) = xs"
proof (induction xs rule: join_commas.induct)
  case 1
  then show ?case by simp
next
  case (2 x)
  then show ?case
    using split_commas_no_comma [of x "[]"] by simp
next
  case (3 x y r)
  then show ?case
    by (simp add: split_commas_no_comma)
qed

lemma join_commas_Nil_iff:
  "\<forall>x \<in> set xs. x \<noteq> [] \<Longrightarrow> (join_commas xs = []) = (xs = [])"
  by (induction xs rule: join_commas.induct) auto

lemma listed_in_join_commas:
  assumes "\<forall>x \<in> set xs. is_identifier x"
  shows "listed_in c (join_commas xs) = (c \<in> set xs)"
proof (cases "xs = []")
  case True
  then show ?thesis by (simp add: listed_in_def)
next
  case False
  have "join_commas xs \<noteq> []"
    using assms False by (simp add: join_commas_Nil_iff is_identifier_def)
  moreover have "split_commas (join_commas xs) = xs"
    using assms False by (simp add: split_join_commas is_identifier_def)
  ultimately show ?thesis
    by (simp add: listed_in_def)
qed

lemma set_lookup_categories_subset:
  "set (lookup_categories i t) \<subseteq> set (concat (map snd t))"
  by (induction t) (auto split: if_splits)

lemma set_concat_update_categories:
  "set (concat (map snd (update_categories i f t)))
     \<subseteq> set (concat (map snd t)) \<union> set (f (lookup_categories i t))"
  by (induction t) (fastforce split: if_splits)+

lemma set_fold_remove1_subset:
  "set (fold remove1 cs xs) \<subseteq> set xs"
proof -
  have "set_mset (mset xs - mset cs) \<subseteq> set_mset (mset xs)"
    by (auto dest: in_diffD)
  then show ?thesis
    by (simp add: mset_fold_remove1 [symmetric])
qed

lemma do_category_call_distinct:
  "distinct (map fst (categories_' ag)) \<Longrightarrow>
   distinct (map fst (categories_' (do_category_call x ag)))"
  by (cases x) (simp_all add: Agent_Enable_def Agent_Disable_def distinct_update_categories)

lemma do_category_call_members:
  "set (concat (map snd (categories_' (do_category_call x ag))))
     \<subseteq> set (concat (map snd (categories_' ag))) \<union> set (call_categories x)"
proof (cases x)
  case (Enable i cs)
  show ?thesis
    using set_concat_update_categories [of i "\<lambda>xs. xs @ cs" "categories_' ag"]
      set_lookup_categories_subset [of i "categories_' ag"]
    by (auto simp: Enable Agent_Enable_def)
next
  case (Disable i cs)
  show ?thesis
    using set_concat_update_categories [of i "fold remove1 cs" "categories_' ag"]
      set_lookup_categories_subset [of i "categories_' ag"]
      set_fold_remove1_subset [of cs "lookup_categories i (categories_' ag)"]
    by (auto simp: Disable Agent_Disable_def)
qed

lemma fold_do_category_call_distinct:
  "distinct (map fst (categories_' ag)) \<Longrightarrow>
   distinct (map fst (categories_' (fold do_category_call cl ag)))"
  by (induction cl arbitrary: ag) (simp_all add: do_category_call_distinct)

lemma fold_do_category_call_members:
  "set (concat (map snd (categories_' (fold do_category_call cl ag))))
     \<subseteq> set (concat (map snd (categories_' ag))) \<union> (\<Union>x \<in> set cl. set (call_categories x))"
proof (induction cl arbitrary: ag)
  case Nil
  then show ?case by simp
next
  case (Cons x cl)
  show ?case
    using Cons.IH [of "do_category_call x ag"] do_category_call_members [of x ag]
    by auto
qed

lemma enabled_iff_positive_count:
  assumes "distinct (map fst (categories_' ag))"
  shows "(c \<in> set (flatten (categories_' ag))) = (\<exists>i. 0 < count (ref_multiset ag i) c)"
  using in_some_lookup_iff [OF assms, of c]
  by (simp add: set_flatten ref_multiset_def del: set_concat)

text \<open>
  C1. After any sequence of \<open>Enable(id, C)\<close> and \<open>Disable(id, C)\<close> calls on the initial
  Agent, a category is in the enabled set exactly when some id's multiset holds it with
  positive multiplicity. When the categories passed are identifiers (non-empty, without a
  comma), the same holds for the fields of the comma-joined string that
  \<open>GetEnabledCategories\<close> returns. After \<open>Enable(1,{"a"}); Enable(2,{"a"}); Disable(1,{"a"})\<close>
  the string lists \<open>"a"\<close>; after a further \<open>Disable(2,{"a"})\<close> it does not.
\<close>

theorem enabled_iff_ref_counted:
  "(c \<in> set (flatten (categories_' (fold do_category_call cl (Agent_init tc)))))
     = (\<exists>i. 0 < count (ref_multiset (fold do_category_call cl (Agent_init tc)) i) c)
   \<and> ((\<forall>x \<in> set cl. \<forall>y \<in> set (call_categories x). is_identifier y) \<longrightarrow>
        listed_in c (GetEnabledCategories (fold do_category_call cl (Agent_init tc)))
          = (\<exists>i. 0 < count (ref_multiset (fold do_category_call cl (Agent_init tc)) i) c))
   \<and> listed_in ''a'' (GetEnabledCategories (fold do_category_call
          [Enable 1 [''a''], Enable 2 [''a''], Disable 1 [''a'']] (Agent_init tc)))
   \<and> \<not> listed_in ''a'' (GetEnabledCategories (fold do_category_call
          [Enable 1 [''a''], Enable 2 [''a''], Disable 1 [''a''], Disable 2 [''a'']] (Agent_init tc)))"
proof -
  let ?ag = "fold do_category_call cl (Agent_init tc)"
  have d: "distinct (map fst (categories_' ?ag))"
    by (rule fold_do_category_call_distinct) (simp add: Agent_init_def)
  have t1: "(c \<in> set (flatten (categories_' ?ag))) = (\<exists>i. 0 < count (ref_multiset ?ag i) c)"
    using d by (rule enabled_iff_positive_count)
  have t2: "listed_in c (GetEnabledCategories ?ag) = (\<exists>i. 0 < count (ref_multiset ?ag i) c)"
    if ids: "\<forall>x \<in> set cl. \<forall>y \<in> set (call_categories x). is_identifier y"
  proof -
    have "set (flatten (categories_' ?ag)) \<subseteq> (\<Union>x \<in> set cl. set (call_categories x))"
      using fold_do_category_call_members [of cl "Agent_init tc"]
      by (simp add: set_flatten Agent_init_def del: set_concat)
    then have "\<forall>y \<in> set (flatten (categories_' ?ag)). is_identifier y"
      using ids by blast
    then have "listed_in c (GetEnabledCategories ?ag) = (c \<in> set (flatten (categories_' ?ag)))"
      unfolding GetEnabledCategories_def by (rule listed_in_join_commas)
    then show ?thesis
      using t1 by simp
  qed
  have t3: "listed_in ''a'' (GetEnabledCategories (fold do_category_call
          [Enable 1 [''a''], Enable 2 [''a''], Disable 1 [''a'']] (Agent_init tc)))"
    by (simp add: listed_in_def GetEnabledCategories_def flatten_def Agent_Enable_def
        Agent_Disable_def Agent_init_def insert_category_def)
  have t4: "\<not> listed_in ''a'' (GetEnabledCategories (fold do_category_call
          [Enable 1 [''a''], Enable 2 [''a''], Disable 1 [''a''], Disable 2 [''a'']] (Agent_init tc)))"
    by (simp add: listed_in_def GetEnabledCategories_def flatten_def Agent_Enable_def
        Agent_Disable_def Agent_init_def insert_category_def)
  show ?thesis
    using t1 t2 t3 t4 by blast
qed

theorem enabled_iff_ref_counted_witness:
  "is_identifier ''a''
   \<and> GetEnabledCategories (fold do_category_call
        [Enable 1 [''a''], Enable 2 [''a''], Disable 1 [''a'']] (Agent_init None)) = ''a''
   \<and> (\<exists>i. 0 < count (ref_multiset (fold do_category_call
        [Enable 1 [''a''], Enable 2 [''a''], Disable 1 [''a'']] (Agent_init None)) i) ''a'')"
proof -
  let ?cl = "[Enable 1 [''a''], Enable 2 [''a''], Disable 1 [''a'']]"
  have ids: "\<forall>x \<in> set ?cl. \<forall>y \<in> set (call_categories x). is_identifier y"
    by (simp add: is_identifier_def)
  have g: "GetEnabledCategories (fold do_category_call ?cl (Agent_init None)) = ''a''"
    by (simp add: GetEnabledCategories_def flatten_def Agent_Enable_def
        Agent_Disable_def Agent_init_def insert_category_def)
  have l: "listed_in ''a'' ''a''"
    by (simp add: listed_in_def)
  note t = enabled_iff_ref_counted [of "''a''" ?cl None, THEN conjunct2, THEN conjunct1, THEN mp, OF ids]
  have "\<exists>i. 0 < count (ref_multiset (fold do_category_call ?cl (Agent_init None)) i) ''a''"
    using t l unfolding g by simp
  then show ?thesis
    using g by (simp add: is_identifier_def)
qed

subsection \<open>Invariants of an Agent's lifetime\<close>

lemma run_demo:
  "run_agent ops_demo (Agent_init None, []) = Inr (agent_demo, [(1, 10), (2, 11), (3, 12)])"
  by (simp add: ops_demo_def agent_demo_def Agent_init_def Agent_AddClient_def INT_MAX_def
      Agent_Enable_def Agent_Disconnect_def insert_category_def kDefaultHandleId_def Let_def)

lemma AddClient_Inr:
  assumes "Agent_AddClient cs w m ag = Inr (i, ag')"
  shows "i = next_writer_id_' ag" and "next_writer_id_' ag' = next_writer_id_' ag + 1"
    and "next_writer_id_' ag < INT_MAX"
    and "writers_' ag' = writers_' ag @ [(i, w)]"
    and "\<exists>u. categories_' ag' = update_categories i (\<lambda>_. u) (categories_' ag)"
proof -
  have lt: "next_writer_id_' ag < INT_MAX"
    using assms by (cases "INT_MAX \<le> next_writer_id_' ag") (simp_all add: Agent_AddClient_def)
  then have n: "\<not> INT_MAX \<le> next_writer_id_' ag" by simp
  have i: "i = next_writer_id_' ag"
    using assms n by (simp add: Agent_AddClient_def Let_def)
  have ag': "ag' = snd (projr (Agent_AddClient cs w m ag))"
    using assms by simp
  show "i = next_writer_id_' ag" by (rule i)
  show "next_writer_id_' ag < INT_MAX" by (rule lt)
  show "next_writer_id_' ag' = next_writer_id_' ag + 1"
    unfolding ag' using n by (simp add: Agent_AddClient_def Let_def)
  show "writers_' ag' = writers_' ag @ [(i, w)]"
    unfolding ag' i using n by (simp add: Agent_AddClient_def Let_def)
  show "\<exists>u. categories_' ag' = update_categories i (\<lambda>_. u) (categories_' ag)"
    unfolding ag' i using n by (simp add: Agent_AddClient_def Let_def) blast
qed

lemma agent_step_inv:
  assumes "agent_step x (ag, regs) = Inr (ag', regs')"
    and "next_writer_id_' ag = 1 + int (length regs)"
    and "subseq (writers_' ag) regs"
    and "distinct (map fst (categories_' ag))"
    and "map fst regs = map int [1..<Suc (length regs)]"
    and "next_writer_id_' ag \<le> INT_MAX"
  shows "next_writer_id_' ag' = 1 + int (length regs')
       \<and> subseq (writers_' ag') regs'
       \<and> distinct (map fst (categories_' ag'))
       \<and> map fst regs' = map int [1..<Suc (length regs')]
       \<and> next_writer_id_' ag' \<le> INT_MAX"
proof (cases x)
  case (AddClient cs w m)
  obtain i where a: "Agent_AddClient cs w m ag = Inr (i, ag')" and r: "regs' = regs @ [(i, w)]"
    using assms(1) AddClient by (auto split: sum.splits)
  note f = AddClient_Inr [OF a]
  obtain u where u: "categories_' ag' = update_categories i (\<lambda>_. u) (categories_' ag)"
    using f(5) ..
  have s: "subseq (writers_' ag') regs'"
    unfolding f(4) r using assms(3) by (intro list_emb_append_mono) simp_all
  have d: "distinct (map fst (categories_' ag'))"
    unfolding u using assms(4) by (rule distinct_update_categories)
  have n: "next_writer_id_' ag' = 1 + int (length regs')"
    using f(2) assms(2) r by simp
  have m: "map fst regs' = map int [1..<Suc (length regs')]"
    using assms(5) assms(2) f(1) r by simp
  have b: "next_writer_id_' ag' \<le> INT_MAX"
    using f(2) f(3) by simp
  show ?thesis
    using n s d m b by simp
next
  case (Disconnect i)
  have e: "ag' = Agent_Disconnect i ag" "regs' = regs"
    using assms(1) Disconnect by auto
  have "subseq (filter (\<lambda>(j, w). j \<noteq> i) (writers_' ag)) (writers_' ag)"
    by simp
  then have "subseq (filter (\<lambda>(j, w). j \<noteq> i) (writers_' ag)) regs"
    using assms(3) by (rule subseq_order.trans)
  then have s: "subseq (writers_' ag') regs'"
    by (simp add: e Agent_Disconnect_def)
  have d: "distinct (map fst (categories_' ag'))"
    using assms(4) by (simp add: e Agent_Disconnect_def distinct_map_filter)
  have n: "next_writer_id_' ag' = next_writer_id_' ag"
    by (simp add: e Agent_Disconnect_def)
  show ?thesis
    using s d n assms(2,5,6) e(2) by simp
next
  case (CategoryCall c)
  have e: "ag' = do_category_call c ag" "regs' = regs"
    using assms(1) CategoryCall by auto
  have k: "writers_' ag' = writers_' ag" "next_writer_id_' ag' = next_writer_id_' ag"
    unfolding e by (cases c; simp add: Agent_Enable_def Agent_Disable_def)+
  have d: "distinct (map fst (categories_' ag'))"
    unfolding e using assms(4) by (rule do_category_call_distinct)
  show ?thesis
    using k d assms(2,3,5,6) e(2) by simp
qed

lemma run_agent_inv:
  assumes "run_agent xs (ag, regs) = Inr (ag', regs')"
    and "next_writer_id_' ag = 1 + int (length regs)"
    and "subseq (writers_' ag) regs"
    and "distinct (map fst (categories_' ag))"
    and "map fst regs = map int [1..<Suc (length regs)]"
    and "next_writer_id_' ag \<le> INT_MAX"
  shows "next_writer_id_' ag' = 1 + int (length regs')
       \<and> subseq (writers_' ag') regs'
       \<and> distinct (map fst (categories_' ag'))
       \<and> map fst regs' = map int [1..<Suc (length regs')]
       \<and> next_writer_id_' ag' \<le> INT_MAX"
  using assms
proof (induction xs arbitrary: ag regs)
  case Nil
  then show ?case by simp
next
  case (Cons x xs)
  obtain ag1 regs1 where st: "agent_step x (ag, regs) = Inr (ag1, regs1)"
    using Cons.prems(1) by (cases "agent_step x (ag, regs)") auto
  have r: "run_agent xs (ag1, regs1) = Inr (ag', regs')"
    using Cons.prems(1) st by simp
  note i = agent_step_inv [OF st Cons.prems(2-6)]
  show ?case
    using Cons.IH [OF r] i by blast
qed

lemma run_agent_from_init:
  assumes "run_agent xs (Agent_init tc, []) = Inr (ag, regs)"
  shows "next_writer_id_' ag = 1 + int (length regs)
       \<and> subseq (writers_' ag) regs
       \<and> distinct (map fst (categories_' ag))
       \<and> map fst regs = map int [1..<Suc (length regs)]
       \<and> next_writer_id_' ag \<le> INT_MAX"
  by (rule run_agent_inv [OF assms]) (simp_all add: Agent_init_def INT_MAX_def)

lemma agent_step_succeeds:
  assumes "next_writer_id_' ag < INT_MAX"
  shows "\<exists>ag' regs'. agent_step x (ag, regs) = Inr (ag', regs')
           \<and> next_writer_id_' ag' \<le> next_writer_id_' ag + 1"
proof (cases x)
  case (AddClient cs w m)
  then show ?thesis
    using assms by (simp add: Agent_AddClient_def Let_def)
next
  case (Disconnect i)
  then show ?thesis by (simp add: Agent_Disconnect_def)
next
  case (CategoryCall c)
  then show ?thesis
    by (cases c) (simp_all add: Agent_Enable_def Agent_Disable_def)
qed

lemma run_agent_succeeds:
  "next_writer_id_' ag + int (length xs) \<le> INT_MAX \<Longrightarrow>
   \<exists>ag' regs'. run_agent xs (ag, regs) = Inr (ag', regs')"
proof (induction xs arbitrary: ag regs)
  case Nil
  then show ?case by simp
next
  case (Cons x xs)
  have "next_writer_id_' ag < INT_MAX"
    using Cons.prems by simp
  then obtain ag1 regs1 where st: "agent_step x (ag, regs) = Inr (ag1, regs1)"
      and le: "next_writer_id_' ag1 \<le> next_writer_id_' ag + 1"
    using agent_step_succeeds [of ag x regs] by blast
  have "next_writer_id_' ag1 + int (length xs) \<le> INT_MAX"
    using le Cons.prems by simp
  then obtain ag' regs' where "run_agent xs (ag1, regs1) = Inr (ag', regs')"
    using Cons.IH by blast
  then show ?case
    using st by simp
qed

lemma sorted_wrt_less_subseq:
  "subseq xs ys \<Longrightarrow> sorted_wrt (<) ys \<Longrightarrow> sorted_wrt (<) (xs :: int list)"
proof (induction rule: list_emb.induct)
  case (list_emb_Nil ys)
  then show ?case by simp
next
  case (list_emb_Cons xs ys y)
  then show ?case by simp
next
  case (list_emb_Cons2 x y xs ys)
  have "set xs \<subseteq> set ys"
    using list_emb_set [OF list_emb_Cons2.hyps(2)] by auto
  then show ?case
    using list_emb_Cons2 by auto
qed

lemma agent_step_regs_length:
  "agent_step x (ag, regs) = Inr (ag', regs') \<Longrightarrow>
   length regs' = length regs + (if is_AddClient x then 1 else 0)"
  by (cases x) (auto split: sum.splits)

lemma run_agent_regs_length:
  "run_agent xs (ag, regs) = Inr (ag', regs') \<Longrightarrow>
   length regs' = length regs + length (filter is_AddClient xs)"
proof (induction xs arbitrary: ag regs)
  case Nil
  then show ?case by simp
next
  case (Cons x xs)
  obtain ag1 regs1 where st: "agent_step x (ag, regs) = Inr (ag1, regs1)"
    using Cons.prems by (cases "agent_step x (ag, regs)") auto
  have r: "run_agent xs (ag1, regs1) = Inr (ag', regs')"
    using Cons.prems st by simp
  show ?case
    using Cons.IH [OF r] agent_step_regs_length [OF st] by simp
qed

lemma ids_from_one:
  assumes "ids = map int [1..<Suc n]"
  shows "sorted_wrt (<) ids" and "distinct ids" and "\<forall>i \<in> set ids. 0 < i \<and> i \<le> int n"
proof -
  show "sorted_wrt (<) ids"
    unfolding assms by (simp add: sorted_wrt_map del: upt_Suc)
  then show "distinct ids"
    by (simp add: strict_sorted_iff)
  show "\<forall>i \<in> set ids. 0 < i \<and> i \<le> int n"
    unfolding assms by auto
qed

text \<open>
  C6. In every lifetime of an Agent, that is every sequence of \<open>AddClient\<close>,
  \<open>Disconnect\<close>, \<open>Enable\<close> and \<open>Disable\<close> calls on the initial Agent that does not exhaust
  the 32-bit id space, each \<open>AddClient\<close> call is assigned an id, and the ids assigned are
  1, 2, 3, ... in call order: positive, strictly increasing, pairwise distinct whatever
  \<open>Disconnect\<close> calls lie in between, representable, and different from the default
  handle's id -1. A lifetime of fewer than \<open>INT_MAX\<close> calls never exhausts the id space.
\<close>

theorem client_ids_fresh_and_increasing:
  "(run_agent ops (Agent_init tc, []) = Inr (ag, regs) \<longrightarrow>
       length regs = length (filter is_AddClient ops)
     \<and> map fst regs = map int [1..<Suc (length regs)]
     \<and> sorted_wrt (<) (map fst regs)
     \<and> distinct (map fst regs)
     \<and> (\<forall>i \<in> set (map fst regs). 0 < i \<and> i < INT_MAX \<and> i \<noteq> kDefaultHandleId)
     \<and> next_writer_id_' ag = 1 + int (length regs))
   \<and> (1 + int (length ops) \<le> INT_MAX \<longrightarrow>
        (\<exists>ag' regs'. run_agent ops (Agent_init tc, []) = Inr (ag', regs')))"
proof -
  have t1: "length regs = length (filter is_AddClient ops)
     \<and> map fst regs = map int [1..<Suc (length regs)]
     \<and> sorted_wrt (<) (map fst regs)
     \<and> distinct (map fst regs)
     \<and> (\<forall>i \<in> set (map fst regs). 0 < i \<and> i < INT_MAX \<and> i \<noteq> kDefaultHandleId)
     \<and> next_writer_id_' ag = 1 + int (length regs)"
    if r: "run_agent ops (Agent_init tc, []) = Inr (ag, regs)"
  proof -
    note inv = run_agent_from_init [OF r]
    have m: "map fst regs = map int [1..<Suc (length regs)]"
      using inv by blast
    have n: "next_writer_id_' ag = 1 + int (length regs)" "next_writer_id_' ag \<le> INT_MAX"
      using inv by blast+
    note k = ids_from_one [OF m]
    have b: "\<forall>i \<in> set (map fst regs). 0 < i \<and> i < INT_MAX \<and> i \<noteq> kDefaultHandleId"
    proof
      fix i assume "i \<in> set (map fst regs)"
      then have "0 < i \<and> i \<le> int (length regs)"
        using k(3) by blast
      then show "0 < i \<and> i < INT_MAX \<and> i \<noteq> kDefaultHandleId"
        using n by (simp add: kDefaultHandleId_def)
    qed
    have l: "length regs = length (filter is_AddClient ops)"
      using run_agent_regs_length [OF r] by simp
    show ?thesis
      using l m k(1) k(2) b n(1) by blast
  qed
  have t2: "\<exists>ag' regs'. run_agent ops (Agent_init tc, []) = Inr (ag', regs')"
    if "1 + int (length ops) \<le> INT_MAX"
    by (rule run_agent_succeeds) (use that in \<open>simp add: Agent_init_def\<close>)
  show ?thesis
    using t1 t2 by blast
qed

theorem client_ids_fresh_and_increasing_witness:
  "run_agent ops_demo (Agent_init None, []) = Inr (agent_demo, [(1, 10), (2, 11), (3, 12)])
   \<and> length [(1 :: int, 10 :: nat), (2, 11), (3, 12)] = length (filter is_AddClient ops_demo)
   \<and> sorted_wrt (<) (map fst [(1 :: int, 10 :: nat), (2, 11), (3, 12)])
   \<and> next_writer_id_' agent_demo = 4"
  using client_ids_fresh_and_increasing [of ops_demo None agent_demo "[(1, 10), (2, 11), (3, 12)]",
      THEN conjunct1, THEN mp, OF run_demo] run_demo
  by simp

text \<open>
  C2. In every state an Agent reaches, \<open>AppendTraceEvent\<close> makes exactly one
  \<open>AppendTraceEvent\<close> call per registered writer, N calls for N registrations, in the
  order of the registry. The registry lists the registrations in the order of their
  \<open>AddClient\<close> calls (it is a subsequence of the history, with strictly increasing ids and
  no id twice), and the calls made do not depend on the category table.
\<close>

theorem append_trace_event_fans_out:
  assumes "run_agent ops (Agent_init tc, []) = Inr (ag, regs)"
  shows "Agent_AppendTraceEvent ev ag =
           map (\<lambda>w. Writer_AppendTraceEvent w ev) (map snd (writers_' ag))
       \<and> length (Agent_AppendTraceEvent ev ag) = length (writers_' ag)
       \<and> subseq (writers_' ag) regs
       \<and> sorted_wrt (<) (map fst (writers_' ag))
       \<and> distinct (map fst (writers_' ag))
       \<and> Agent_AppendTraceEvent ev (ag\<lparr>categories_' := t\<rparr>) = Agent_AppendTraceEvent ev ag"
proof -
  note inv = run_agent_from_init [OF assms]
  have s: "subseq (writers_' ag) regs"
    using inv by blast
  have m: "map fst regs = map int [1..<Suc (length regs)]"
    using inv by blast
  have "subseq (map fst (writers_' ag)) (map fst regs)"
    using s by (rule subseq_map)
  then have o: "sorted_wrt (<) (map fst (writers_' ag))"
    using ids_from_one(1) [OF m] by (rule sorted_wrt_less_subseq)
  then have d: "distinct (map fst (writers_' ag))"
    by (simp add: strict_sorted_iff)
  have c: "Agent_AppendTraceEvent ev ag =
           map (\<lambda>w. Writer_AppendTraceEvent w ev) (map snd (writers_' ag))"
    by (simp add: Agent_AppendTraceEvent_def case_prod_unfold)
  have l: "length (Agent_AppendTraceEvent ev ag) = length (writers_' ag)"
    by (simp add: Agent_AppendTraceEvent_def)
  have i: "Agent_AppendTraceEvent ev (ag\<lparr>categories_' := t\<rparr>) = Agent_AppendTraceEvent ev ag"
    by (simp add: Agent_AppendTraceEvent_def)
  show ?thesis
    using c l s o d i by blast
qed

theorem append_trace_event_fans_out_witness:
  "run_agent ops_demo (Agent_init None, []) = Inr (agent_demo, [(1, 10), (2, 11), (3, 12)])
   \<and> Agent_AppendTraceEvent 7 agent_demo = [Writer_AppendTraceEvent 11 7, Writer_AppendTraceEvent 12 7]
   \<and> length (Agent_AppendTraceEvent 7 agent_demo) = 2"
proof -
  note t = append_trace_event_fans_out [OF run_demo, of 7 "[]"]
  have "Agent_AppendTraceEvent 7 agent_demo =
          map (\<lambda>w. Writer_AppendTraceEvent w 7) (map snd (writers_' agent_demo))"
    using t by blast
  then have c: "Agent_AppendTraceEvent 7 agent_demo =
      [Writer_AppendTraceEvent 11 7, Writer_AppendTraceEvent 12 7]"
    by (simp add: agent_demo_def)
  show ?thesis
    using run_demo c by simp
qed







end
